theory Spec2Isabelle
  imports Complex_Main
begin

section \<open>Texts: whitespace, lower-casing, splitting\<close>

text \<open>
  A JavaScript string is modelled as a \<^typ>\<open>string\<close> whose characters are the code units
  \<open>0..255\<close> (Latin-1). Within that range the class \<open>\s\<close> of regular expressions and the
  characters removed by \<open>String.prototype.trim\<close> are the same seven code units.
\<close>

definition is_space :: "char \<Rightarrow> bool" where
  "is_space c = (of_char c \<in> {9, 10, 11, 12, 13, 32, 160 :: nat})"

text \<open>\<open>String.prototype.toLowerCase\<close> on the code units \<open>0..255\<close>.\<close>

definition toLowerCase_char :: "char \<Rightarrow> char" where
  "toLowerCase_char c =
     (let n = (of_char c :: nat)
      in if (65 \<le> n \<and> n \<le> 90) \<or> (192 \<le> n \<and> n \<le> 222 \<and> n \<noteq> 215)
         then char_of (n + 32) else c)"

definition toLowerCase :: "string \<Rightarrow> string" where
  "toLowerCase s = map toLowerCase_char s"

text \<open>\<open>String.prototype.trim\<close>: whitespace is dropped at both ends.\<close>

definition trim :: "string \<Rightarrow> string" where
  "trim s = rev (dropWhile is_space (rev (dropWhile is_space s)))"

text \<open>
  \<open>s.split(/\s+/)\<close>: the pieces of \<open>s\<close> between the maximal runs of whitespace. A run at
  the start or at the end of \<open>s\<close> leaves an empty piece there, and the empty string
  splits into the one empty piece. \<open>cur\<close> holds the piece being read, reversed.
\<close>

function split_from :: "string \<Rightarrow> string \<Rightarrow> string list" where
  "split_from cur [] = [rev cur]"
| "split_from cur (c # cs) =
     (if is_space c then rev cur # split_from [] (dropWhile is_space cs)
      else split_from (c # cur) cs)"
  by pat_completeness auto
termination
  by (relation "measure (\<lambda>(cur, s). length s)")
     (auto simp: le_imp_less_Suc length_dropWhile_le)

definition split_ws :: "string \<Rightarrow> string list" where
  "split_ws s = split_from [] s"

section \<open>Metrics\<close>

text \<open>
  \<open>Math.ceil(wordCount / 200)\<close>. The count is the length of an array, so it is below
  \<open>2^32\<close>, where the quotient of the two doubles and its ceiling are exact: the real
  quotient is the model.
\<close>

definition readingTime_of :: "nat \<Rightarrow> nat" where
  "readingTime_of wordCount = nat \<lceil>real wordCount / 200\<rceil>"

section \<open>The term-weight index\<close>

text \<open>
  Modelled from the spec: the package \<open>natural\<close>, whose \<open>TfIdf\<close> class the service
  instantiates, is not among the sources. Section 4.3 of the specification gives its
  observable behaviour: the text is tokenized into words, a frequency table of the one
  document is built, and the terms are ranked by raw frequency, highest first, ties in
  the order of first occurrence. A document is the table of its terms in the order in
  which they were first seen; an instance holds the documents added to it.
\<close>

record term_entry =
  entry_term :: string
  weight :: nat

text \<open>Modelled from the spec: a document is its table; an instance is its documents.\<close>

type_synonym document = "term_entry list"

record tfidf =
  documents :: "document list"

text \<open>Modelled from the spec: a new instance, with no document (\<open>new natural.TfIdf()\<close>).\<close>

definition new_TfIdf :: tfidf where
  "new_TfIdf = \<lparr>documents = []\<rparr>"

text \<open>Modelled from the spec: one more occurrence of a term in the frequency table.\<close>

fun addTerm :: "string \<Rightarrow> document \<Rightarrow> document" where
  "addTerm t [] = [\<lparr>entry_term = t, weight = 1\<rparr>]"
| "addTerm t (e # es) =
     (if entry_term e = t then e\<lparr>weight := weight e + 1\<rparr> # es else e # addTerm t es)"

text \<open>Modelled from the spec: the frequency table of a token sequence.\<close>

definition buildDocument :: "string list \<Rightarrow> document" where
  "buildDocument tokens = foldl (\<lambda>doc t. addTerm t doc) [] tokens"

text \<open>Modelled from the spec: \<open>addDocument\<close> appends the table of the text's tokens.\<close>

definition addDocument :: "string list \<Rightarrow> tfidf \<Rightarrow> tfidf" where
  "addDocument tokens tf = tf\<lparr>documents := documents tf @ [buildDocument tokens]\<rparr>"

text \<open>
  Modelled from the spec: the stable sort by descending weight; an entry goes before the
  first lighter or equally heavy entry of those that came after it in the table.
\<close>

fun insertRanked :: "term_entry \<Rightarrow> term_entry list \<Rightarrow> term_entry list" where
  "insertRanked e [] = [e]"
| "insertRanked e (x # xs) =
     (if weight x \<le> weight e then e # x # xs else x # insertRanked e xs)"

text \<open>Modelled from the spec: the ranking of a table.\<close>

fun rankEntries :: "term_entry list \<Rightarrow> term_entry list" where
  "rankEntries [] = []"
| "rankEntries (e # es) = insertRanked e (rankEntries es)"

text \<open>Modelled from the spec: \<open>listTerms(d)\<close>, the ranked terms of document \<open>d\<close> of the instance.\<close>

definition listTerms :: "tfidf \<Rightarrow> nat \<Rightarrow> term_entry list" where
  "listTerms tf d = (if d < length (documents tf) then rankEntries (documents tf ! d) else [])"

section \<open>The analysis service\<close>

record category =
  name :: string
  cat_keywords :: "string list"

record analysis =
  wordCount :: nat
  readingTime :: nat
  autoTags :: "string list"
  suggestedCategory :: string

datatype error = Error string

text \<open>
  What the service takes from its collaborators, none of them among the sources:
  \<^item> \<open>readability_parse\<close> is \<open>new JSDOM(html)\<close> followed by \<open>new Readability(..).parse()\<close>:
    it throws (\<open>Inl\<close>), returns \<open>null\<close> (\<open>Inr None\<close>) or returns an article, of which only
    \<open>textContent\<close> is read;
  \<^item> \<open>tokenize\<close> is the \<open>WordTokenizer\<close> of \<open>natural\<close>;
  \<^item> \<open>Category_find\<close> is \<open>Category.find({})\<close>: it rejects or yields the stored categories
    in order.
\<close>

record env =
  readability_parse :: "string \<Rightarrow> error + string option"
  tokenize :: "string \<Rightarrow> string list"
  Category_find :: "error + category list"

text \<open>
  The state outside one call: the module-level instance \<open>TfIdf\<close> (line 10 of the
  service) and, to make the calls to the collaborators observable, their log.
\<close>

datatype call =
    Extract string
  | RankTerms string
  | FetchTaxonomy
  | Classify string

record world =
  TfIdf :: tfidf
  calls :: "call list"

definition record_call :: "call \<Rightarrow> world \<Rightarrow> world" where
  "record_call c w = w\<lparr>calls := calls w @ [c]\<rparr>"

text \<open>The inner \<open>forEach\<close> over the keywords of one category.\<close>

definition countMatches :: "string list \<Rightarrow> string list \<Rightarrow> nat" where
  "countMatches contentTokens kws =
     foldl (\<lambda>currentMatches keyword.
              if toLowerCase keyword \<in> set contentTokens then currentMatches + 1
              else currentMatches) 0 kws"

text \<open>The body of the outer \<open>forEach\<close>, on the pair \<open>(maxMatches, suggestedCategory)\<close>.\<close>

definition classifyStep :: "string list \<Rightarrow> nat \<times> string \<Rightarrow> category \<Rightarrow> nat \<times> string" where
  "classifyStep contentTokens best cat =
     (let currentMatches = countMatches contentTokens (cat_keywords cat)
      in if currentMatches > fst best then (currentMatches, name cat) else best)"

definition suggestCategory :: "string list \<Rightarrow> category list \<Rightarrow> string" where
  "suggestCategory contentTokens categories =
     snd (foldl (classifyStep contentTokens) (0, ''Uncategorized'') categories)"

definition performContentAnalysis :: "env \<Rightarrow> string \<Rightarrow> world \<Rightarrow> (error + analysis) \<times> world" where
  "performContentAnalysis env textBody w0 =
     (let html = ''<body>'' @ textBody @ ''</body>'';
          w1 = record_call (Extract html) w0
      in case readability_parse env html of
           Inl e \<Rightarrow> (Inl e, w1)
         | Inr article \<Rightarrow>
             (let wc = (case article of Some t \<Rightarrow> length (split_ws t) | None \<Rightarrow> 0);
                  rt = readingTime_of wc;
                  textContent = (case article of Some t \<Rightarrow> t | None \<Rightarrow> []);
                  tfidf = addDocument (tokenize env textContent) new_TfIdf;
                  tags = map entry_term (take 5 (listTerms tfidf 0));
                  w2 = record_call FetchTaxonomy (record_call (RankTerms textContent) w1)
              in case Category_find env of
                   Inl e \<Rightarrow> (Inl e, w2)
                 | Inr categories \<Rightarrow>
                     if length categories > 0
                     then (Inr \<lparr>wordCount = wc, readingTime = rt, autoTags = tags,
                                 suggestedCategory =
                                   suggestCategory (tokenize env (toLowerCase textContent))
                                     categories\<rparr>,
                           record_call (Classify (toLowerCase textContent)) w2)
                     else (Inr \<lparr>wordCount = wc, readingTime = rt, autoTags = tags,
                                 suggestedCategory = ''Uncategorized''\<rparr>, w2)))"

definition analyzeContentService :: "env \<Rightarrow> string \<Rightarrow> world \<Rightarrow> (error + analysis) \<times> world" where
  "analyzeContentService env textBody w =
     (if textBody = [] \<or> length (trim textBody) = 0
      then (Inr \<lparr>wordCount = 0, readingTime = 0, autoTags = [],
                  suggestedCategory = ''Uncategorized''\<rparr>, w)
      else performContentAnalysis env textBody w)"

section \<open>The follow toggle\<close>

text \<open>
  The collection behind the \<open>Follow\<close> model: its documents in insertion order, each with
  the \<open>_id\<close> the store gave it, and the next \<open>_id\<close> the store will give.
\<close>

record follow =
  follow_id :: nat
  followerId :: string
  followingId :: string

record follow_store =
  follows :: "follow list"
  next_id :: nat

definition Follow_findOne :: "string \<Rightarrow> string \<Rightarrow> follow_store \<Rightarrow> follow option" where
  "Follow_findOne a b st = find (\<lambda>d. followerId d = a \<and> followingId d = b) (follows st)"

definition Follow_findByIdAndDelete :: "nat \<Rightarrow> follow_store \<Rightarrow> follow_store" where
  "Follow_findByIdAndDelete i st = st\<lparr>follows := filter (\<lambda>d. follow_id d \<noteq> i) (follows st)\<rparr>"

definition Follow_create :: "string \<Rightarrow> string \<Rightarrow> follow_store \<Rightarrow> follow_store" where
  "Follow_create a b st =
     st\<lparr>follows := follows st @ [\<lparr>follow_id = next_id st, followerId = a, followingId = b\<rparr>],
        next_id := next_id st + 1\<rparr>"

definition toggleFollowService :: "string \<Rightarrow> string \<Rightarrow> follow_store \<Rightarrow> (error + bool) \<times> follow_store" where
  "toggleFollowService a b st =
     (if a = b then (Inl (Error ''Users cannot follow themselves.''), st)
      else case Follow_findOne a b st of
             Some existingFollow \<Rightarrow> (Inr False, Follow_findByIdAndDelete (follow_id existingFollow) st)
           | None \<Rightarrow> (Inr True, Follow_create a b st))"

text \<open>The store keeps \<open>_id\<close> unique, and every \<open>_id\<close> in use is older than the next one.\<close>

definition store_ok :: "follow_store \<Rightarrow> bool" where
  "store_ok st = (distinct (map follow_id (follows st)) \<and> list_all (\<lambda>d. follow_id d < next_id st) (follows st))"

section \<open>Reference notions and sample collaborators\<close>

text \<open>
  The words of a text as the specification counts them: the maximal runs of characters
  that are not whitespace.
\<close>

function ws_tokens :: "string \<Rightarrow> string list" where
  "ws_tokens s =
     (case dropWhile is_space s of
        [] \<Rightarrow> []
      | c # cs \<Rightarrow> (c # takeWhile (\<lambda>x. \<not> is_space x) cs)
                  # ws_tokens (dropWhile (\<lambda>x. \<not> is_space x) cs))"
  by pat_completeness auto
termination
proof (relation "measure length", goal_cases)
  case 1
  show ?case by simp
next
  case (2 s c cs)
  have "length (dropWhile (\<lambda>x. \<not> is_space x) cs) \<le> length cs"
    by (rule length_dropWhile_le)
  moreover have "length (c # cs) \<le> length s"
    using length_dropWhile_le [of is_space s] 2 by simp
  ultimately show ?case by simp
qed

text \<open>The position at which a term first occurs in a token sequence.\<close>

definition first_index :: "string list \<Rightarrow> string \<Rightarrow> nat" where
  "first_index tokens t = length (takeWhile (\<lambda>x. x \<noteq> t) tokens)"

text \<open>
  A sample extractor that loses nothing: the text is what stands between the body tags,
  and there is no article when that is blank. A sample tokenizer: the words above.
\<close>

definition between_body_tags :: "string \<Rightarrow> string" where
  "between_body_tags html = take (length html - 13) (drop 6 html)"

definition sample_parse :: "string \<Rightarrow> error + string option" where
  "sample_parse html =
     (let inner = between_body_tags html
      in if list_all is_space inner then Inr None else Inr (Some inner))"

definition sample_env :: "category list \<Rightarrow> env" where
  "sample_env cats =
     \<lparr>readability_parse = sample_parse, tokenize = ws_tokens, Category_find = Inr cats\<rparr>"

text \<open>An extractor that throws on whatever it is given.\<close>

definition throwing_env :: "category list \<Rightarrow> env" where
  "throwing_env cats =
     \<lparr>readability_parse = (\<lambda>html. Inl (Error ''parse fault'')), tokenize = ws_tokens,
      Category_find = Inr cats\<rparr>"

definition w0 :: world where
  "w0 = \<lparr>TfIdf = new_TfIdf, calls = []\<rparr>"

text \<open>An extractor that finds the given text in whatever it is given.\<close>

definition extracting_env :: "string \<Rightarrow> category list \<Rightarrow> env" where
  "extracting_env t cats =
     \<lparr>readability_parse = (\<lambda>html. Inr (Some t)), tokenize = ws_tokens,
      Category_find = Inr cats\<rparr>"

text \<open>The text the analysis works on: \<open>article ? article.textContent : ''\<close>.\<close>

definition extracted_text :: "string option \<Rightarrow> string" where
  "extracted_text article = (case article of Some t \<Rightarrow> t | None \<Rightarrow> [])"

text \<open>A sample taxonomy: the first two categories tie on the sample texts below.\<close>

definition sample_taxonomy :: "category list" where
  "sample_taxonomy =
     [\<lparr>name = ''Sports'', cat_keywords = [''runs'', ''Fast'']\<rparr>,
      \<lparr>name = ''Animals'', cat_keywords = [''fox'', ''dog'']\<rparr>,
      \<lparr>name = ''Colours'', cat_keywords = [''brown'']\<rparr>]"

text \<open>A sample store with two follow relationships.\<close>

definition sample_store :: follow_store where
  "sample_store =
     \<lparr>follows = [\<lparr>follow_id = 0, followerId = ''ann'', followingId = ''bob''\<rparr>,
                 \<lparr>follow_id = 1, followerId = ''bob'', followingId = ''cy''\<rparr>],
      next_id = 2\<rparr>"

text \<open>
  What rejecting or truncating a markup would look like from outside: the analysis ends
  in an error, or no call of the extractor saw as many characters as the markup has.
\<close>

definition rejects_or_truncates :: "env \<Rightarrow> string \<Rightarrow> bool" where
  "rejects_or_truncates env textBody =
     (case performContentAnalysis env textBody w0 of
        (res, w) \<Rightarrow>
          isl res \<or> list_all (\<lambda>c. case c of Extract html \<Rightarrow> length html < length textBody
                                           | _ \<Rightarrow> True) (calls w))"

text \<open>The default result.\<close>

definition default_analysis :: analysis where
  "default_analysis = \<lparr>wordCount = 0, readingTime = 0, autoTags = [],
                        suggestedCategory = ''Uncategorized''\<rparr>"

text \<open>
  The order of the ranking as the specification words it: a term comes before another
  when it is more frequent in the token sequence, or as frequent and first seen earlier.
\<close>

definition ranked_before :: "string list \<Rightarrow> string \<Rightarrow> string \<Rightarrow> bool" where
  "ranked_before tokens a b =
     (count_list tokens b < count_list tokens a \<or>
      (count_list tokens a = count_list tokens b \<and> first_index tokens a < first_index tokens b))"

text \<open>A text of 50 words: \<open>apple\<close> ten times, forty other words once each.\<close>

definition apple_text :: string where
  "apple_text = ''w1 w2 w3 w4 apple w5 w6 w7 w8 apple w9 w10 w11 w12 apple w13 w14 w15 w16 apple w17 w18 w19 w20 apple w21 w22 w23 w24 apple w25 w26 w27 w28 apple w29 w30 w31 w32 apple w33 w34 w35 w36 apple w37 w38 w39 w40 apple''"

text \<open>A run of requests, one after the other, each on the world the one before left.\<close>

fun analyzeAll :: "env \<Rightarrow> string list \<Rightarrow> world \<Rightarrow> (error + analysis) list \<times> world" where
  "analyzeAll env [] w = ([], w)"
| "analyzeAll env (m # ms) w =
     (case analyzeContentService env m w of
        (r, w') \<Rightarrow> (case analyzeAll env ms w' of (rs, w'') \<Rightarrow> (r # rs, w'')))"

text \<open>A world in which the module-level instance already holds a document.\<close>

definition used_world :: world where
  "used_world = \<lparr>TfIdf = addDocument [''x'', ''y'', ''x''] new_TfIdf, calls = [FetchTaxonomy]\<rparr>"

section \<open>Metrics: the reading time\<close>

lemma readingTime_of_div: "readingTime_of n = (n + 199) div 200"
proof -
  let ?q = "(n + 199) div 200"
  have a: "n \<le> 200 * ?q" by arith
  have b: "200 * ?q < n + 200" by arith
  have "\<lceil>real n / 200\<rceil> = int ?q"
  proof (rule ceiling_unique)
    have "real (200 * ?q) < real (n + 200)" using b of_nat_less_iff by blast
    then show "of_int (int ?q) - 1 < real n / 200" by simp
    have "real n \<le> real (200 * ?q)" using a of_nat_le_iff by blast
    then show "real n / 200 \<le> of_int (int ?q)" by simp
  qed
  then show ?thesis unfolding readingTime_of_def by simp
qed

declare readingTime_of_div [code]

section \<open>What one analysis returns\<close>

lemma suggestCategory_Nil: "suggestCategory toks [] = ''Uncategorized''"
  by (simp add: suggestCategory_def)

lemma performContentAnalysis_Inr:
  assumes "fst (performContentAnalysis env textBody w) = Inr r"
  shows "\<exists>article cats.
           readability_parse env (''<body>'' @ textBody @ ''</body>'') = Inr article \<and>
           Category_find env = Inr cats \<and>
           wordCount r = (case article of Some t \<Rightarrow> length (split_ws t) | None \<Rightarrow> 0) \<and>
           readingTime r = readingTime_of (wordCount r) \<and>
           autoTags r = map entry_term (take 5 (rankEntries
                          (buildDocument (tokenize env (extracted_text article))))) \<and>
           suggestedCategory r =
             suggestCategory (tokenize env (toLowerCase (extracted_text article))) cats"
  using assms
  by (auto simp: performContentAnalysis_def Let_def extracted_text_def listTerms_def
        addDocument_def new_TfIdf_def suggestCategory_Nil
        split: sum.splits option.splits if_splits)

lemma performContentAnalysis_ok:
  assumes "readability_parse env (''<body>'' @ textBody @ ''</body>'') = Inr article"
      and "Category_find env = Inr cats"
  shows "\<exists>r. fst (performContentAnalysis env textBody w) = Inr r"
  using assms by (simp add: performContentAnalysis_def Let_def)

lemma trim_Nil_iff: "trim s = [] \<longleftrightarrow> (\<forall>c\<in>set s. is_space c)"
proof
  assume "trim s = []"
  then have "dropWhile is_space (rev (dropWhile is_space s)) = []" by (simp add: trim_def)
  then have a: "\<forall>c\<in>set (dropWhile is_space s). is_space c"
    by (simp add: dropWhile_eq_Nil_conv)
  show "\<forall>c\<in>set s. is_space c"
  proof (cases "dropWhile is_space s")
    case Nil
    then show ?thesis by (simp add: dropWhile_eq_Nil_conv)
  next
    case (Cons x xs)
    then have "\<not> is_space x" using hd_dropWhile [of is_space s] by simp
    moreover have "is_space x" using a Cons by simp
    ultimately show ?thesis by simp
  qed
next
  assume "\<forall>c\<in>set s. is_space c"
  then have e: "dropWhile is_space s = []" by (simp add: dropWhile_eq_Nil_conv)
  show "trim s = []" unfolding trim_def e by simp
qed

section \<open>Word count and reading time\<close>

text \<open>
  The pieces of the split that are not empty are the words of the text, and the empty
  pieces are one for a text that is empty or starts with whitespace and one for a text
  that ends with whitespace.
\<close>

lemma ws_tokens_Nil: "ws_tokens [] = []"
  by (subst ws_tokens.simps) simp

lemma ws_tokens_dropWhile: "ws_tokens (dropWhile is_space s) = ws_tokens s"
  by (subst ws_tokens.simps, subst (2) ws_tokens.simps) simp

lemma ws_tokens_space: "is_space c \<Longrightarrow> ws_tokens (c # s) = ws_tokens s"
  using ws_tokens_dropWhile [of "c # s"] ws_tokens_dropWhile [of s] by simp

lemma ws_tokens_unfold:
  "\<not> is_space c \<Longrightarrow>
   ws_tokens (c # cs) =
     (c # takeWhile (\<lambda>x. \<not> is_space x) cs) # ws_tokens (dropWhile (\<lambda>x. \<not> is_space x) cs)"
  by (subst ws_tokens.simps) simp

lemma ws_tokens_word:
  assumes "\<forall>c\<in>set w. \<not> is_space c" and "w \<noteq> []"
  shows "ws_tokens w = [w]"
proof -
  obtain c cs where w: "w = c # cs" using assms(2) by (cases w) auto
  have t: "takeWhile (\<lambda>x. \<not> is_space x) cs = cs"
    using assms(1) w by (simp add: takeWhile_eq_all_conv)
  have d: "dropWhile (\<lambda>x. \<not> is_space x) cs = []"
    using assms(1) w by (simp add: dropWhile_eq_Nil_conv)
  have "\<not> is_space c" using assms(1) w by simp
  then have "ws_tokens (c # cs) = [c # cs]"
    unfolding ws_tokens_unfold [OF \<open>\<not> is_space c\<close>] t d ws_tokens_Nil by simp
  then show ?thesis using w by simp
qed

lemma ws_tokens_word_space:
  assumes "\<forall>c\<in>set w. \<not> is_space c" and "w \<noteq> []" and "is_space d"
  shows "ws_tokens (w @ d # s) = w # ws_tokens s"
proof -
  obtain c cs where w: "w = c # cs" using assms(2) by (cases w) auto
  have t: "takeWhile (\<lambda>x. \<not> is_space x) (cs @ d # s) = cs"
    using assms w by (subst takeWhile_append2) auto
  have d: "dropWhile (\<lambda>x. \<not> is_space x) (cs @ d # s) = d # s"
    using assms w by (subst dropWhile_append2) auto
  have "\<not> is_space c" using assms(1) w by simp
  then have "ws_tokens (c # (cs @ d # s)) = (c # cs) # ws_tokens (d # s)"
    unfolding ws_tokens_unfold [OF \<open>\<not> is_space c\<close>] t d by simp
  then have "ws_tokens (w @ d # s) = w # ws_tokens (d # s)" using w by simp
  then show ?thesis using assms(3) by (simp add: ws_tokens_space)
qed

lemma split_from_words:
  "\<forall>c\<in>set cur. \<not> is_space c \<Longrightarrow>
   filter (\<lambda>p. p \<noteq> []) (split_from cur s) = ws_tokens (rev cur @ s)"
proof (induction cur s rule: split_from.induct)
  case (1 cur)
  show ?case
  proof (cases "cur = []")
    case True
    then show ?thesis by (simp add: ws_tokens_Nil)
  next
    case False
    have "ws_tokens (rev cur) = [rev cur]"
      using 1 False by (intro ws_tokens_word) auto
    then show ?thesis using False by simp
  qed
next
  case (2 cur c cs)
  show ?case
  proof (cases "is_space c")
    case True
    have ih: "filter (\<lambda>p. p \<noteq> []) (split_from [] (dropWhile is_space cs)) = ws_tokens cs"
      using 2(1) [OF True] by (simp add: ws_tokens_dropWhile)
    show ?thesis
    proof (cases "cur = []")
      case True
      then show ?thesis using \<open>is_space c\<close> ih by (simp add: ws_tokens_space)
    next
      case False
      then have "ws_tokens (rev cur @ c # cs) = rev cur # ws_tokens cs"
        using 2(3) \<open>is_space c\<close> by (intro ws_tokens_word_space) auto
      then show ?thesis using False \<open>is_space c\<close> ih by simp
    qed
  next
    case False
    then show ?thesis using 2(2) [OF False] 2(3) by simp
  qed
qed

lemma split_ws_words: "filter (\<lambda>p. p \<noteq> []) (split_ws t) = ws_tokens t"
  using split_from_words [of "[]" t] by (simp add: split_ws_def)

lemma last_dropWhile: "dropWhile P xs \<noteq> [] \<Longrightarrow> last (dropWhile P xs) = last xs"
  by (induction xs) (auto split: if_splits)

lemma split_from_empties:
  "length (filter (\<lambda>p. p = []) (split_from cur s)) =
     (if cur = [] \<and> (s = [] \<or> is_space (hd s)) then 1 else 0) +
     (if s \<noteq> [] \<and> is_space (last s) then 1 else 0)"
proof (induction cur s rule: split_from.induct)
  case (1 cur)
  show ?case by simp
next
  case (2 cur c cs)
  show ?case
  proof (cases "is_space c")
    case True
    let ?r = "dropWhile is_space cs"
    have ih: "length (filter (\<lambda>p. p = []) (split_from [] ?r)) =
       (if ?r = [] \<or> is_space (hd ?r) then 1 else 0) +
       (if ?r \<noteq> [] \<and> is_space (last ?r) then 1 else 0)"
      using 2(1) [OF True] by simp
    have e: "length (filter (\<lambda>p. p = []) (split_from [] ?r)) =
               (if is_space (last (c # cs)) then 1 else 0)"
    proof (cases "?r = []")
      case True
      then have "\<forall>x\<in>set cs. is_space x" by (simp add: dropWhile_eq_Nil_conv)
      then have "is_space (last (c # cs))" using \<open>is_space c\<close> by (cases "cs = []") simp_all
      moreover have "length (filter (\<lambda>p. p = []) (split_from [] ?r)) = 1"
        unfolding ih by (simp only: True) simp
      ultimately show ?thesis by simp
    next
      case False
      then have "\<not> is_space (hd ?r)" using hd_dropWhile [of is_space cs] by simp
      moreover have "last ?r = last (c # cs)"
        using False last_dropWhile [of is_space cs] by (cases "cs = []") simp_all
      ultimately show ?thesis using ih False by simp
    qed
    show ?thesis using True e by simp
  next
    case False
    then show ?thesis using 2(2) [OF False] by simp
  qed
qed

lemma split_ws_length:
  "length (split_ws t) =
     length (ws_tokens t) + (if t = [] \<or> is_space (hd t) then 1 else 0) +
     (if t \<noteq> [] \<and> is_space (last t) then 1 else 0)"
proof -
  have "length (split_ws t) =
          length (filter (\<lambda>p. p \<noteq> []) (split_ws t)) + length (filter (\<lambda>p. \<not> p \<noteq> []) (split_ws t))"
    by (rule sum_length_filter_compl [symmetric])
  then show ?thesis
    using split_from_empties [of "[]" t] split_ws_words [of t] by (simp add: split_ws_def)
qed

text \<open>
  C3. The claim: the word count is the number of non-empty whitespace-delimited tokens
  of the extracted text, and it is 0 for empty extracted text. The service takes the
  length of \<open>textContent.split(/\s+/)\<close>, which also counts the empty piece before
  leading and after trailing whitespace: an extracted text \<open>hello world\<close> followed by a
  space has two words and the count 3, and an article whose text is empty has the
  count 1.
\<close>

theorem wordCount_counts_empty_pieces:
  "fst (performContentAnalysis (sample_env []) ''hello world '' w0) =
     Inr \<lparr>wordCount = 3, readingTime = 1, autoTags = [''hello'', ''world''],
           suggestedCategory = ''Uncategorized''\<rparr> \<and>
   length (ws_tokens ''hello world '') = 2 \<and>
   fst (performContentAnalysis (extracting_env [] []) ''<p></p>'' w0) =
     Inr \<lparr>wordCount = 1, readingTime = 1, autoTags = [],
           suggestedCategory = ''Uncategorized''\<rparr> \<and>
   length (ws_tokens []) = 0"
  by code_simp

text \<open>
  C4. For every result of the service, the reading time is the ceiling of the word count
  over 200: it is the one number \<open>n\<close> with \<open>200 * (n - 1) < wordCount \<le> 200 * n\<close>, so it
  is 0 for no words and at least 1 otherwise; 199 and 200 words give 1, 201 words give 2.
\<close>

theorem readingTime_is_ceiling:
  assumes "fst (analyzeContentService env textBody w) = Inr r"
  shows "int (readingTime r) = \<lceil>real (wordCount r) / 200\<rceil> \<and>
         wordCount r \<le> 200 * readingTime r \<and> 200 * readingTime r < wordCount r + 200 \<and>
         (wordCount r = 0 \<longrightarrow> readingTime r = 0) \<and>
         (0 < wordCount r \<longrightarrow> 1 \<le> readingTime r) \<and>
         readingTime_of 0 = 0 \<and> readingTime_of 199 = 1 \<and>
         readingTime_of 200 = 1 \<and> readingTime_of 201 = 2"
proof -
  have rt: "readingTime r = readingTime_of (wordCount r)"
  proof (cases "textBody = [] \<or> length (trim textBody) = 0")
    case True
    then have "r = \<lparr>wordCount = 0, readingTime = 0, autoTags = [],
                 suggestedCategory = ''Uncategorized''\<rparr>"
      using assms by (auto simp: analyzeContentService_def)
    then show ?thesis by (simp add: readingTime_of_div)
  next
    case False
    then have "fst (performContentAnalysis env textBody w) = Inr r"
      using assms by (simp add: analyzeContentService_def)
    from performContentAnalysis_Inr [OF this] show ?thesis by blast
  qed
  have c: "int (readingTime r) = \<lceil>real (wordCount r) / 200\<rceil>"
  proof -
    have "0 \<le> \<lceil>real (wordCount r) / 200\<rceil>" by (simp add: ceiling_le_iff) 
    then show ?thesis unfolding rt readingTime_of_def by simp
  qed
  have d: "readingTime r = (wordCount r + 199) div 200"
    using rt by (simp add: readingTime_of_div)
  have e: "wordCount r \<le> 200 * readingTime r" unfolding d by arith
  have f: "200 * readingTime r < wordCount r + 200" unfolding d by arith
  have g: "wordCount r = 0 \<longrightarrow> readingTime r = 0" unfolding d by simp
  have h: "0 < wordCount r \<longrightarrow> 1 \<le> readingTime r" unfolding d by arith
  have i: "readingTime_of 0 = 0 \<and> readingTime_of 199 = 1 \<and>
         readingTime_of 200 = 1 \<and> readingTime_of 201 = 2"
    by (simp add: readingTime_of_div)
  from c e f g h i show ?thesis by blast
qed


theorem readingTime_is_ceiling_witness:
  "fst (analyzeContentService (sample_env []) ''hello world'' w0) =
     Inr \<lparr>wordCount = 2, readingTime = 1, autoTags = [''hello'', ''world''],
           suggestedCategory = ''Uncategorized''\<rparr> \<and>
   int 1 = \<lceil>real 2 / 200\<rceil>"
proof -
  have h: "fst (analyzeContentService (sample_env []) ''hello world'' w0) =
     Inr \<lparr>wordCount = 2, readingTime = 1, autoTags = [''hello'', ''world''],
           suggestedCategory = ''Uncategorized''\<rparr>"
    by code_simp
  from readingTime_is_ceiling [OF h] h show ?thesis by simp
qed

section \<open>The short circuit on blank input\<close>

text \<open>
  C5. For every markup that is empty or all whitespace, the service returns the default
  result and leaves the world as it was: the log of calls is unchanged, so neither the
  extractor nor the ranking, the classification or the taxonomy was called.
\<close>

theorem analyze_blank_short_circuit:
  assumes "\<forall>c\<in>set textBody. is_space c"
  shows "analyzeContentService env textBody w =
           (Inr \<lparr>wordCount = 0, readingTime = 0, autoTags = [],
                 suggestedCategory = ''Uncategorized''\<rparr>, w)"
  using assms trim_Nil_iff [of textBody] by (simp add: analyzeContentService_def)

theorem analyze_blank_short_circuit_witness:
  "analyzeContentService (throwing_env []) [CHR '' '', CHR 0x09, CHR 0x0A] w0 =
     (Inr \<lparr>wordCount = 0, readingTime = 0, autoTags = [],
           suggestedCategory = ''Uncategorized''\<rparr>, w0)"
proof -
  have h: "\<forall>c\<in>set [CHR '' '', CHR 0x09, CHR 0x0A]. is_space c" by code_simp
  from analyze_blank_short_circuit [OF h, of "throwing_env []" w0] show ?thesis .
qed

section \<open>The category suggestion\<close>

lemma countMatches_foldl:
  "foldl (\<lambda>currentMatches keyword.
            if toLowerCase keyword \<in> set toks then currentMatches + 1 else currentMatches) n kws =
   n + length (filter (\<lambda>k. toLowerCase k \<in> set toks) kws)"
  by (induction kws arbitrary: n) simp_all

lemma countMatches_filter:
  "countMatches toks kws = length (filter (\<lambda>k. toLowerCase k \<in> set toks) kws)"
  by (simp add: countMatches_def countMatches_foldl)

lemma classify_fold:
  assumes "foldl (classifyStep toks) (0, ''Uncategorized'') cats = (m, s)"
  shows "(\<forall>c\<in>set cats. countMatches toks (cat_keywords c) \<le> m) \<and>
         ((m = 0 \<and> s = ''Uncategorized'') \<or>
          (0 < m \<and> (\<exists>i<length cats. s = name (cats ! i) \<and>
              countMatches toks (cat_keywords (cats ! i)) = m \<and>
              (\<forall>j<i. countMatches toks (cat_keywords (cats ! j)) < m))))"
  using assms
proof (induction cats arbitrary: m s rule: rev_induct)
  case Nil
  then show ?case by simp
next
  case (snoc x xs)
  obtain m0 s0 where f: "foldl (classifyStep toks) (0, ''Uncategorized'') xs = (m0, s0)"
    by (cases "foldl (classifyStep toks) (0, ''Uncategorized'') xs")
  note ih = snoc.IH [OF f]
  let ?k = "countMatches toks (cat_keywords x)"
  have st: "classifyStep toks (m0, s0) x = (m, s)"
    using snoc.prems f by simp
  show ?case
  proof (cases "?k > m0")
    case True
    then have ms: "m = ?k" "s = name x"
      using st by (simp_all add: classifyStep_def)
    have le: "\<forall>c\<in>set (xs @ [x]). countMatches toks (cat_keywords c) \<le> m"
      using ih True ms by auto
    have "\<forall>c\<in>set xs. countMatches toks (cat_keywords c) < m"
      using ih True ms by auto
    then have lt: "\<forall>j<length xs. countMatches toks (cat_keywords ((xs @ [x]) ! j)) < m"
      by (simp add: nth_append)
    have "length xs < length (xs @ [x]) \<and> s = name ((xs @ [x]) ! length xs) \<and>
          countMatches toks (cat_keywords ((xs @ [x]) ! length xs)) = m"
      using ms by simp
    with lt have "\<exists>i<length (xs @ [x]). s = name ((xs @ [x]) ! i) \<and>
              countMatches toks (cat_keywords ((xs @ [x]) ! i)) = m \<and>
              (\<forall>j<i. countMatches toks (cat_keywords ((xs @ [x]) ! j)) < m)"
      by blast
    moreover have "0 < m" using True ms by simp
    ultimately show ?thesis using le by blast
  next
    case False
    then have ms: "m = m0" "s = s0"
      using st by (simp_all add: classifyStep_def)
    have le: "\<forall>c\<in>set (xs @ [x]). countMatches toks (cat_keywords c) \<le> m"
      using ih False ms by auto
    from ih have "(m = 0 \<and> s = ''Uncategorized'') \<or>
          (0 < m \<and> (\<exists>i<length xs. s = name (xs ! i) \<and>
              countMatches toks (cat_keywords (xs ! i)) = m \<and>
              (\<forall>j<i. countMatches toks (cat_keywords (xs ! j)) < m)))"
      using ms by simp
    then show ?thesis
    proof
      assume "m = 0 \<and> s = ''Uncategorized''"
      then show ?thesis using le by blast
    next
      assume a: "0 < m \<and> (\<exists>i<length xs. s = name (xs ! i) \<and>
              countMatches toks (cat_keywords (xs ! i)) = m \<and>
              (\<forall>j<i. countMatches toks (cat_keywords (xs ! j)) < m))"
      then obtain i where i: "i < length xs" "s = name (xs ! i)"
              "countMatches toks (cat_keywords (xs ! i)) = m"
              "\<forall>j<i. countMatches toks (cat_keywords (xs ! j)) < m" by blast
      have "i < length (xs @ [x]) \<and> s = name ((xs @ [x]) ! i) \<and>
              countMatches toks (cat_keywords ((xs @ [x]) ! i)) = m \<and>
              (\<forall>j<i. countMatches toks (cat_keywords ((xs @ [x]) ! j)) < m)"
        using i by (simp add: nth_append)
      then show ?thesis using a le by blast
    qed
  qed
qed

lemma suggestCategory_cases:
  "(suggestCategory toks cats = ''Uncategorized'' \<and>
      (\<forall>c\<in>set cats. countMatches toks (cat_keywords c) = 0)) \<or>
   (\<exists>i<length cats. suggestCategory toks cats = name (cats ! i) \<and>
      0 < countMatches toks (cat_keywords (cats ! i)) \<and>
      (\<forall>j<length cats. countMatches toks (cat_keywords (cats ! j))
          \<le> countMatches toks (cat_keywords (cats ! i))) \<and>
      (\<forall>j<i. countMatches toks (cat_keywords (cats ! j))
          < countMatches toks (cat_keywords (cats ! i))))"
proof -
  obtain m s where f: "foldl (classifyStep toks) (0, ''Uncategorized'') cats = (m, s)"
    by (cases "foldl (classifyStep toks) (0, ''Uncategorized'') cats")
  then have s: "suggestCategory toks cats = s" by (simp add: suggestCategory_def)
  note c = classify_fold [OF f]
  show ?thesis
  proof (cases "m = 0")
    case True
    then show ?thesis using c s by auto
  next
    case False
    then obtain i where i: "i < length cats" "s = name (cats ! i)"
        "countMatches toks (cat_keywords (cats ! i)) = m"
        "\<forall>j<i. countMatches toks (cat_keywords (cats ! j)) < m"
      using c by auto
    have "\<forall>j<length cats. countMatches toks (cat_keywords (cats ! j)) \<le> m"
      using c by simp
    then show ?thesis using i s False by auto
  qed
qed


lemma suggestCategory_all_zero:
  assumes "\<forall>c\<in>set cats. countMatches toks (cat_keywords c) = 0"
  shows "suggestCategory toks cats = ''Uncategorized''"
proof (rule ccontr)
  assume n: "suggestCategory toks cats \<noteq> ''Uncategorized''"
  with suggestCategory_cases [of toks cats]
  obtain i where i: "i < length cats" "0 < countMatches toks (cat_keywords (cats ! i))"
    by blast
  from i(1) have "cats ! i \<in> set cats" by (rule nth_mem)
  with assms have "countMatches toks (cat_keywords (cats ! i)) = 0" by blast
  with i(2) show False by simp
qed

text \<open>
  C1. For every text and every ordered taxonomy: the score the service computes for a
  category is the number of its keywords that, lower-cased, are among the tokens of the
  lower-cased text (membership, so a keyword counts once however often it occurs in the
  text); for keywords that are in lower case, as the taxonomy has them, that is the
  number of keywords among the tokens. When no category scores above 0 the result is the sentinel; otherwise it is the
  name of the category at the first position whose score is the maximum: every earlier
  category scores strictly less, and no category scores more, so a later category with
  an equal score does not replace it.
\<close>

theorem classifier_first_strict_maximum:
  assumes parse: "readability_parse env (''<body>'' @ textBody @ ''</body>'') = Inr article"
      and find: "Category_find env = Inr cats"
      and toks: "toks = tokenize env (toLowerCase (extracted_text article))"
  shows "\<exists>r. fst (performContentAnalysis env textBody w) = Inr r \<and>
           (\<forall>c\<in>set cats. countMatches toks (cat_keywords c) =
               length (filter (\<lambda>k. toLowerCase k \<in> set toks) (cat_keywords c))) \<and>
           (\<forall>c\<in>set cats. (\<forall>k\<in>set (cat_keywords c). toLowerCase k = k) \<longrightarrow>
               countMatches toks (cat_keywords c) =
                 length (filter (\<lambda>k. k \<in> set toks) (cat_keywords c))) \<and>
           (if \<forall>c\<in>set cats. countMatches toks (cat_keywords c) = 0
            then suggestedCategory r = ''Uncategorized''
            else \<exists>i<length cats. suggestedCategory r = name (cats ! i) \<and>
                   0 < countMatches toks (cat_keywords (cats ! i)) \<and>
                   (\<forall>j<i. countMatches toks (cat_keywords (cats ! j))
                       < countMatches toks (cat_keywords (cats ! i))) \<and>
                   (\<forall>j<length cats. countMatches toks (cat_keywords (cats ! j))
                       \<le> countMatches toks (cat_keywords (cats ! i))))"
proof -
  obtain r where r: "fst (performContentAnalysis env textBody w) = Inr r"
    using performContentAnalysis_ok [OF parse find] by blast
  from performContentAnalysis_Inr [OF r] parse find toks
  have sc: "suggestedCategory r = suggestCategory toks cats" by auto
  have cm: "\<forall>c\<in>set cats. countMatches toks (cat_keywords c) =
               length (filter (\<lambda>k. toLowerCase k \<in> set toks) (cat_keywords c))"
    by (simp add: countMatches_filter)
  have cl: "\<forall>c\<in>set cats. (\<forall>k\<in>set (cat_keywords c). toLowerCase k = k) \<longrightarrow>
               countMatches toks (cat_keywords c) =
                 length (filter (\<lambda>k. k \<in> set toks) (cat_keywords c))"
  proof (intro ballI impI)
    fix c assume "\<forall>k\<in>set (cat_keywords c). toLowerCase k = k"
    then have "filter (\<lambda>k. toLowerCase k \<in> set toks) (cat_keywords c) =
               filter (\<lambda>k. k \<in> set toks) (cat_keywords c)"
      by (intro filter_cong) simp_all
    then show "countMatches toks (cat_keywords c) =
                 length (filter (\<lambda>k. k \<in> set toks) (cat_keywords c))"
      by (simp add: countMatches_filter)
  qed
  have "if \<forall>c\<in>set cats. countMatches toks (cat_keywords c) = 0
            then suggestedCategory r = ''Uncategorized''
            else \<exists>i<length cats. suggestedCategory r = name (cats ! i) \<and>
                   0 < countMatches toks (cat_keywords (cats ! i)) \<and>
                   (\<forall>j<i. countMatches toks (cat_keywords (cats ! j))
                       < countMatches toks (cat_keywords (cats ! i))) \<and>
                   (\<forall>j<length cats. countMatches toks (cat_keywords (cats ! j))
                       \<le> countMatches toks (cat_keywords (cats ! i)))"
  proof (cases "\<forall>c\<in>set cats. countMatches toks (cat_keywords c) = 0")
    case True
    have "suggestCategory toks cats = ''Uncategorized''"
      using True by (rule suggestCategory_all_zero)
    then show ?thesis using True sc by simp
  next
    case False
    have "\<exists>i<length cats. suggestCategory toks cats = name (cats ! i) \<and>
      0 < countMatches toks (cat_keywords (cats ! i)) \<and>
      (\<forall>j<length cats. countMatches toks (cat_keywords (cats ! j))
          \<le> countMatches toks (cat_keywords (cats ! i))) \<and>
      (\<forall>j<i. countMatches toks (cat_keywords (cats ! j))
          < countMatches toks (cat_keywords (cats ! i)))"
      using suggestCategory_cases [of toks cats] False by blast
    then show ?thesis using False sc by auto
  qed
  with r cm cl show ?thesis by blast
qed

theorem classifier_first_strict_maximum_witness:
  "\<exists>r. fst (performContentAnalysis (sample_env sample_taxonomy)
            ''The quick brown fox runs fast and the lazy dog runs after the fox'' w0) = Inr r \<and>
        suggestedCategory r = ''Sports''"
proof -
  let ?text = "''The quick brown fox runs fast and the lazy dog runs after the fox''"
  have p: "readability_parse (sample_env sample_taxonomy) (''<body>'' @ ?text @ ''</body>'') =
             Inr (Some ?text)"
    by code_simp
  have f: "Category_find (sample_env sample_taxonomy) = Inr sample_taxonomy"
    by (simp add: sample_env_def)
  have v: "suggestedCategory (projr (fst (performContentAnalysis (sample_env sample_taxonomy)
             ?text w0))) = ''Sports''"
    by code_simp
  from classifier_first_strict_maximum [OF p f refl, of w0]
  obtain r where "fst (performContentAnalysis (sample_env sample_taxonomy) ?text w0) = Inr r"
    by blast
  with v show ?thesis by auto
qed

text \<open>
  C6, as amended. For every result of the analysis, the suggested category is the name
  of a supplied category or the sentinel \<open>Uncategorized\<close>; it is not empty when no
  supplied category has the empty name; and it is the sentinel when the taxonomy is
  empty or no category has a score above 0.
\<close>

theorem suggestedCategory_name_or_sentinel:
  assumes r: "fst (performContentAnalysis env textBody w) = Inr r"
      and find: "Category_find env = Inr cats"
  shows "(suggestedCategory r \<in> set (map name cats) \<or>
            suggestedCategory r = ''Uncategorized'') \<and>
         ((\<forall>c\<in>set cats. name c \<noteq> []) \<longrightarrow> suggestedCategory r \<noteq> []) \<and>
         (\<exists>article. readability_parse env (''<body>'' @ textBody @ ''</body>'') = Inr article \<and>
            ((cats = [] \<or> (\<forall>c\<in>set cats. countMatches
                 (tokenize env (toLowerCase (extracted_text article))) (cat_keywords c) = 0))
             \<longrightarrow> suggestedCategory r = ''Uncategorized''))"
proof -
  from performContentAnalysis_Inr [OF r] find
  obtain article where a: "readability_parse env (''<body>'' @ textBody @ ''</body>'') = Inr article"
    and sc: "suggestedCategory r =
               suggestCategory (tokenize env (toLowerCase (extracted_text article))) cats"
    by auto
  let ?toks = "tokenize env (toLowerCase (extracted_text article))"
  note c = suggestCategory_cases [of ?toks cats]
  have m: "suggestedCategory r \<in> set (map name cats) \<or>
            suggestedCategory r = ''Uncategorized''"
    using c sc by auto
  have n: "(\<forall>c\<in>set cats. name c \<noteq> []) \<longrightarrow> suggestedCategory r \<noteq> []"
    using m by auto
  have z: "(cats = [] \<or> (\<forall>c\<in>set cats. countMatches ?toks (cat_keywords c) = 0))
             \<longrightarrow> suggestedCategory r = ''Uncategorized''"
    using sc suggestCategory_all_zero [of cats ?toks] by (auto simp: suggestCategory_Nil)
  from m n z a show ?thesis by blast
qed

theorem suggestedCategory_name_or_sentinel_witness:
  "suggestedCategory (projr (fst (performContentAnalysis (sample_env sample_taxonomy)
       ''a brown dog'' w0))) \<in> set (map name sample_taxonomy) \<or>
   suggestedCategory (projr (fst (performContentAnalysis (sample_env sample_taxonomy)
       ''a brown dog'' w0))) = ''Uncategorized''"
proof -
  have h: "fst (performContentAnalysis (sample_env sample_taxonomy) ''a brown dog'' w0) =
     Inr \<lparr>wordCount = 3, readingTime = 1, autoTags = [''a'', ''brown'', ''dog''],
           suggestedCategory = ''Animals''\<rparr>"
    by code_simp
  have f: "Category_find (sample_env sample_taxonomy) = Inr sample_taxonomy"
    by (simp add: sample_env_def)
  from suggestedCategory_name_or_sentinel [OF h f] show ?thesis unfolding h by simp
qed

text \<open>
  The claim C6 as stated also says that the suggested category is never empty. A
  category whose name is empty and whose keyword occurs in the text is suggested by its
  name, the empty string.
\<close>

theorem suggestedCategory_empty_name_counterexample:
  "fst (performContentAnalysis (sample_env [\<lparr>name = [], cat_keywords = [''a'']\<rparr>]) ''a'' w0) =
     Inr \<lparr>wordCount = 1, readingTime = 1, autoTags = [''a''], suggestedCategory = []\<rparr>"
  by code_simp

section \<open>The follow toggle: three outcomes\<close>

lemma find_None_iff_no_match: "find P xs = None \<longleftrightarrow> (\<forall>x\<in>set xs. \<not> P x)"
  by (induction xs) auto

lemma find_Some_in_set: "find P xs = Some x \<Longrightarrow> x \<in> set xs \<and> P x"
  by (induction xs) (auto split: if_splits)

lemma delete_by_unique_id:
  assumes "distinct (map f xs)" and "d \<in> set xs"
  shows "filter (\<lambda>x. f x \<noteq> f d) xs = remove1 d xs"
  using assms
proof (induction xs)
  case Nil
  then show ?case by simp
next
  case (Cons x xs)
  show ?case
  proof (cases "x = d")
    case True
    then have "f d \<notin> f ` set xs" using Cons.prems by simp
    then have "\<forall>y\<in>set xs. f y \<noteq> f d" by (metis imageI)
    then have "filter (\<lambda>x. f x \<noteq> f d) xs = xs" by (simp add: filter_id_conv)
    then show ?thesis using True by simp
  next
    case False
    then have "d \<in> set xs" using Cons.prems by simp
    moreover have "f x \<noteq> f d" using Cons.prems \<open>d \<in> set xs\<close> by auto
    ultimately show ?thesis using Cons False by simp
  qed
qed

text \<open>
  C10. When the two identifiers are equal, the service throws
  \<open>Users cannot follow themselves.\<close> and the store is as it was. When they differ and no
  follow of that pair is stored, the service stores one and returns \<open>following: true\<close>;
  when one is stored, the service deletes the document it found (by its \<open>_id\<close>, so that
  document is gone, and it alone when each \<open>_id\<close> is unique) and returns
  \<open>following: false\<close>.
\<close>

theorem toggleFollow_behaviour:
  "(a = b \<longrightarrow>
      toggleFollowService a b st = (Inl (Error ''Users cannot follow themselves.''), st)) \<and>
   (a \<noteq> b \<and> (\<forall>d\<in>set (follows st). \<not> (followerId d = a \<and> followingId d = b)) \<longrightarrow>
      toggleFollowService a b st =
        (Inr True,
         st\<lparr>follows := follows st @ [\<lparr>follow_id = next_id st, followerId = a, followingId = b\<rparr>],
            next_id := next_id st + 1\<rparr>)) \<and>
   (a \<noteq> b \<and> (\<exists>d\<in>set (follows st). followerId d = a \<and> followingId d = b) \<longrightarrow>
      (\<exists>d\<in>set (follows st). followerId d = a \<and> followingId d = b \<and>
         toggleFollowService a b st =
           (Inr False, st\<lparr>follows := filter (\<lambda>x. follow_id x \<noteq> follow_id d) (follows st)\<rparr>) \<and>
         d \<notin> set (follows (snd (toggleFollowService a b st))) \<and>
         (store_ok st \<longrightarrow>
            follows (snd (toggleFollowService a b st)) = remove1 d (follows st))))"
proof (intro conjI impI)
  assume "a = b"
  then show "toggleFollowService a b st = (Inl (Error ''Users cannot follow themselves.''), st)"
    by (simp add: toggleFollowService_def)
next
  assume h: "a \<noteq> b \<and> (\<forall>d\<in>set (follows st). \<not> (followerId d = a \<and> followingId d = b))"
  then have "Follow_findOne a b st = None"
    by (simp add: Follow_findOne_def find_None_iff_no_match)
  then show "toggleFollowService a b st =
        (Inr True,
         st\<lparr>follows := follows st @ [\<lparr>follow_id = next_id st, followerId = a, followingId = b\<rparr>],
            next_id := next_id st + 1\<rparr>)"
    using h by (simp add: toggleFollowService_def Follow_create_def)
next
  assume h: "a \<noteq> b \<and> (\<exists>d\<in>set (follows st). followerId d = a \<and> followingId d = b)"
  then have "Follow_findOne a b st \<noteq> None"
    by (simp add: Follow_findOne_def find_None_iff_no_match)
  then obtain d where d: "Follow_findOne a b st = Some d" by blast
  then have m: "d \<in> set (follows st)" "followerId d = a \<and> followingId d = b"
    using find_Some_in_set [of "\<lambda>d. followerId d = a \<and> followingId d = b" "follows st" d]
    by (simp_all add: Follow_findOne_def)
  have t: "toggleFollowService a b st =
           (Inr False, st\<lparr>follows := filter (\<lambda>x. follow_id x \<noteq> follow_id d) (follows st)\<rparr>)"
    using h d by (simp add: toggleFollowService_def Follow_findByIdAndDelete_def)
  have n: "d \<notin> set (follows (snd (toggleFollowService a b st)))"
    unfolding t by simp
  have u: "store_ok st \<longrightarrow> follows (snd (toggleFollowService a b st)) = remove1 d (follows st)"
    unfolding t using delete_by_unique_id [of follow_id "follows st" d] m
    by (simp add: store_ok_def)
  from m t n u show "\<exists>d\<in>set (follows st). followerId d = a \<and> followingId d = b \<and>
         toggleFollowService a b st =
           (Inr False, st\<lparr>follows := filter (\<lambda>x. follow_id x \<noteq> follow_id d) (follows st)\<rparr>) \<and>
         d \<notin> set (follows (snd (toggleFollowService a b st))) \<and>
         (store_ok st \<longrightarrow>
            follows (snd (toggleFollowService a b st)) = remove1 d (follows st))"
    by blast
qed

theorem toggleFollow_behaviour_witness:
  "toggleFollowService ''ann'' ''ann'' sample_store =
     (Inl (Error ''Users cannot follow themselves.''), sample_store) \<and>
   toggleFollowService ''ann'' ''cy'' sample_store =
     (Inr True,
      sample_store\<lparr>follows := follows sample_store @
           [\<lparr>follow_id = next_id sample_store, followerId = ''ann'', followingId = ''cy''\<rparr>],
         next_id := next_id sample_store + 1\<rparr>) \<and>
   toggleFollowService ''ann'' ''bob'' sample_store =
     (Inr False,
      \<lparr>follows = [\<lparr>follow_id = 1, followerId = ''bob'', followingId = ''cy''\<rparr>], next_id = 2\<rparr>)"
proof -
  have n: "''ann'' \<noteq> ''cy'' \<and> (\<forall>d\<in>set (follows sample_store).
             \<not> (followerId d = ''ann'' \<and> followingId d = ''cy''))"
    by (simp add: sample_store_def)
  have e: "''ann'' \<noteq> ''bob'' \<and> (\<exists>d\<in>set (follows sample_store).
             followerId d = ''ann'' \<and> followingId d = ''bob'')"
    by (simp add: sample_store_def)
  note t = toggleFollow_behaviour
  from t [of "''ann''" "''ann''" sample_store]
  have 1: "toggleFollowService ''ann'' ''ann'' sample_store =
     (Inl (Error ''Users cannot follow themselves.''), sample_store)" by simp
  from t [of "''ann''" "''cy''" sample_store] n
  have 2: "toggleFollowService ''ann'' ''cy'' sample_store =
     (Inr True,
      sample_store\<lparr>follows := follows sample_store @
           [\<lparr>follow_id = next_id sample_store, followerId = ''ann'', followingId = ''cy''\<rparr>],
         next_id := next_id sample_store + 1\<rparr>)" by blast
  from t [of "''ann''" "''bob''" sample_store] e
  obtain d where d: "d \<in> set (follows sample_store)" "followerId d = ''ann''"
     "toggleFollowService ''ann'' ''bob'' sample_store =
           (Inr False, sample_store\<lparr>follows := filter (\<lambda>x. follow_id x \<noteq> follow_id d)
               (follows sample_store)\<rparr>)"
    by blast
  from d(1,2) have "d = \<lparr>follow_id = 0, followerId = ''ann'', followingId = ''bob''\<rparr>"
    by (auto simp: sample_store_def)
  with d(3) have 3: "toggleFollowService ''ann'' ''bob'' sample_store =
     (Inr False,
      \<lparr>follows = [\<lparr>follow_id = 1, followerId = ''bob'', followingId = ''cy''\<rparr>], next_id = 2\<rparr>)"
    by (simp add: sample_store_def)
  from 1 2 3 show ?thesis by blast
qed

section \<open>Extraction: faults and the size of the input\<close>

lemma countMatches_no_tokens: "countMatches [] kws = 0"
  by (simp add: countMatches_filter)

lemma suggestCategory_no_tokens: "suggestCategory [] cats = ''Uncategorized''"
  by (rule suggestCategory_all_zero) (simp add: countMatches_no_tokens)

lemma toLowerCase_Nil: "toLowerCase [] = []"
  by (simp add: toLowerCase_def)

lemma autoTags_no_tokens:
  "map entry_term (take 5 (listTerms (addDocument [] new_TfIdf) 0)) = []"
  by (simp add: listTerms_def addDocument_def new_TfIdf_def buildDocument_def)

text \<open>
  C7, as amended. The analysis has no handler around the extractor. When the extractor
  throws, the error leaves \<open>performContentAnalysis\<close> as it is, after the one logged call.
  When the extractor returns no article, the text is the empty string and, the taxonomy
  being fetched and the tokenizer giving no token for the empty string, the result is
  the default one: no words, reading time 0, no tags, the sentinel category.
\<close>

theorem extraction_without_catch:
  "(readability_parse env (''<body>'' @ textBody @ ''</body>'') = Inl e \<longrightarrow>
      performContentAnalysis env textBody w =
        (Inl e, record_call (Extract (''<body>'' @ textBody @ ''</body>'')) w)) \<and>
   (readability_parse env (''<body>'' @ textBody @ ''</body>'') = Inr None \<and>
    Category_find env = Inr cats \<and> tokenize env [] = [] \<longrightarrow>
      fst (performContentAnalysis env textBody w) = Inr default_analysis)"
proof (intro conjI impI)
  assume "readability_parse env (''<body>'' @ textBody @ ''</body>'') = Inl e"
  then show "performContentAnalysis env textBody w =
        (Inl e, record_call (Extract (''<body>'' @ textBody @ ''</body>'')) w)"
    by (simp add: performContentAnalysis_def)
next
  assume h: "readability_parse env (''<body>'' @ textBody @ ''</body>'') = Inr None \<and>
    Category_find env = Inr cats \<and> tokenize env [] = []"
  then obtain r where r: "fst (performContentAnalysis env textBody w) = Inr r"
    using performContentAnalysis_ok by blast
  from performContentAnalysis_Inr [OF r] h
  have "wordCount r = 0" "readingTime r = readingTime_of (wordCount r)"
       "autoTags r = map entry_term (take 5 (rankEntries (buildDocument [])))"
       "suggestedCategory r = suggestCategory [] cats"
    by (auto simp: extracted_text_def toLowerCase_Nil)
  then have "r = default_analysis"
    by (simp add: default_analysis_def readingTime_of_div suggestCategory_no_tokens
          buildDocument_def)
  with r show "fst (performContentAnalysis env textBody w) = Inr default_analysis" by simp
qed

theorem extraction_without_catch_witness:
  "performContentAnalysis (throwing_env sample_taxonomy) ''<p>unclosed'' w0 =
     (Inl (Error ''parse fault''), record_call (Extract (''<body>'' @ ''<p>unclosed'' @ ''</body>'')) w0) \<and>
   fst (performContentAnalysis (sample_env sample_taxonomy) ''  '' w0) = Inr default_analysis"
proof -
  have a: "readability_parse (throwing_env sample_taxonomy) (''<body>'' @ ''<p>unclosed'' @ ''</body>'') =
             Inl (Error ''parse fault'')"
    by (simp add: throwing_env_def)
  have b: "readability_parse (sample_env sample_taxonomy) (''<body>'' @ ''  '' @ ''</body>'') = Inr None \<and>
           Category_find (sample_env sample_taxonomy) = Inr sample_taxonomy \<and>
           tokenize (sample_env sample_taxonomy) [] = []"
    by code_simp
  from extraction_without_catch [of "throwing_env sample_taxonomy" "''<p>unclosed''"
         "Error ''parse fault''" w0] a
       extraction_without_catch [of "sample_env sample_taxonomy" "''  ''" _ w0 sample_taxonomy] b
  show ?thesis by blast
qed

text \<open>
  The claim C7 as stated says that extraction never raises an error out of the analysis.
  With an extractor that throws on the markup it is given, the analysis ends in that
  error.
\<close>

theorem extraction_fault_counterexample:
  "fst (performContentAnalysis (throwing_env sample_taxonomy) ''<p>unclosed'' w0) =
     Inl (Error ''parse fault'')"
  by code_simp

lemma performContentAnalysis_calls:
  "\<exists>rest. calls (snd (performContentAnalysis env textBody w)) =
       calls w @ Extract (''<body>'' @ textBody @ ''</body>'') # rest"
  by (auto simp: performContentAnalysis_def Let_def record_call_def split: sum.splits)

text \<open>
  C9, as amended. The analysis hands every markup, whatever its length, to the extractor
  whole, between the two body tags; and the service hands every markup that is not blank
  to the analysis.
\<close>

theorem whole_markup_reaches_extractor:
  "(\<exists>rest. calls (snd (performContentAnalysis env textBody w)) =
       calls w @ Extract (''<body>'' @ textBody @ ''</body>'') # rest) \<and>
   (\<not> list_all is_space textBody \<longrightarrow>
      analyzeContentService env textBody w = performContentAnalysis env textBody w)"
proof
  show "\<exists>rest. calls (snd (performContentAnalysis env textBody w)) =
       calls w @ Extract (''<body>'' @ textBody @ ''</body>'') # rest"
    by (rule performContentAnalysis_calls)
  show "\<not> list_all is_space textBody \<longrightarrow>
      analyzeContentService env textBody w = performContentAnalysis env textBody w"
    using trim_Nil_iff [of textBody]
    by (auto simp: analyzeContentService_def list_all_iff)
qed

theorem whole_markup_reaches_extractor_witness:
  "calls (snd (analyzeContentService (sample_env []) (replicate 40 CHR ''a'') w0)) =
     [Extract (''<body>'' @ replicate 40 CHR ''a'' @ ''</body>''),
      RankTerms (replicate 40 CHR ''a''), FetchTaxonomy]"
proof -
  have n: "\<not> list_all is_space (replicate 40 CHR ''a'')" by code_simp
  have c: "calls (snd (performContentAnalysis (sample_env []) (replicate 40 CHR ''a'') w0)) =
     [Extract (''<body>'' @ replicate 40 CHR ''a'' @ ''</body>''),
      RankTerms (replicate 40 CHR ''a''), FetchTaxonomy]"
    by code_simp
  from whole_markup_reaches_extractor [of "sample_env []" "replicate 40 CHR ''a''" w0] n
  have "analyzeContentService (sample_env []) (replicate 40 CHR ''a'') w0 =
        performContentAnalysis (sample_env []) (replicate 40 CHR ''a'') w0" by blast
  with c show ?thesis by simp
qed

lemma sample_env_never_rejects:
  "\<not> rejects_or_truncates (sample_env []) textBody"
proof -
  obtain res w where p: "performContentAnalysis (sample_env []) textBody w0 = (res, w)"
    by (cases "performContentAnalysis (sample_env []) textBody w0")
  have "\<not> isl res"
    using p by (auto simp: performContentAnalysis_def Let_def sample_env_def sample_parse_def
                     split: if_splits)
  moreover have "Extract (''<body>'' @ textBody @ ''</body>'') \<in> set (calls w)"
    using performContentAnalysis_calls [of "sample_env []" textBody w0] p by auto
  then have "\<not> list_all (\<lambda>c. case c of Extract html \<Rightarrow> length html < length textBody
                                           | _ \<Rightarrow> True) (calls w)"
    unfolding list_all_iff by (rule contrapos_pn) (fastforce dest: bspec)
  ultimately show ?thesis using p by (simp add: rejects_or_truncates_def)
qed

text \<open>
  The claim C9 as stated asks for a maximum length beyond which a markup is rejected or
  truncated. There is none: whatever the maximum, a longer markup goes to the extractor
  whole and the analysis returns a result.
\<close>

theorem no_maximum_length_counterexample:
  "\<not> (\<exists>maxLen. \<forall>textBody. length textBody > maxLen \<longrightarrow>
          rejects_or_truncates (sample_env []) textBody)"
proof
  assume "\<exists>maxLen. \<forall>textBody. length textBody > maxLen \<longrightarrow>
          rejects_or_truncates (sample_env []) textBody"
  then obtain maxLen where m: "\<forall>textBody. length textBody > maxLen \<longrightarrow>
          rejects_or_truncates (sample_env []) textBody" by blast
  have "length (replicate (Suc maxLen) CHR ''a'') > maxLen" by simp
  with m have "rejects_or_truncates (sample_env []) (replicate (Suc maxLen) CHR ''a'')" by blast
  then show False by (simp add: sample_env_never_rejects)
qed

section \<open>The automatic tags\<close>

subsection \<open>The table of one document\<close>

lemma addTerm_terms:
  "map entry_term (addTerm t doc) =
     (if t \<in> set (map entry_term doc) then map entry_term doc else map entry_term doc @ [t])"
  by (induction doc) auto

lemma addTerm_weights:
  assumes "distinct (map entry_term doc)"
      and "\<forall>e\<in>set doc. weight e = c (entry_term e)"
      and "t \<notin> set (map entry_term doc) \<longrightarrow> c t = 0"
  shows "\<forall>e\<in>set (addTerm t doc). weight e = c (entry_term e) + (if entry_term e = t then 1 else 0)"
  using assms
proof (induction doc)
  case Nil
  then show ?case by simp
next
  case (Cons x xs)
  show ?case
  proof (cases "entry_term x = t")
    case True
    then have "t \<notin> entry_term ` set xs" using Cons.prems(1) by simp
    then have "\<forall>e\<in>set xs. entry_term e \<noteq> t" by (metis imageI)
    then show ?thesis using True Cons.prems(2) by auto
  next
    case False
    have "\<forall>e\<in>set (addTerm t xs). weight e = c (entry_term e) + (if entry_term e = t then 1 else 0)"
      using Cons.IH Cons.prems False by auto
    then show ?thesis using False Cons.prems(2) by auto
  qed
qed

lemma buildDocument_snoc: "buildDocument (toks @ [t]) = addTerm t (buildDocument toks)"
  by (simp add: buildDocument_def)

lemma first_index_snoc_old: "u \<in> set toks \<Longrightarrow> first_index (toks @ [t]) u = first_index toks u"
  by (simp add: first_index_def)

lemma first_index_snoc_new: "t \<notin> set toks \<Longrightarrow> first_index (toks @ [t]) t = length toks"
  unfolding first_index_def by (subst takeWhile_append2) auto

lemma first_index_less: "u \<in> set toks \<Longrightarrow> first_index toks u < length toks"
  unfolding first_index_def by (induction toks) auto

lemma buildDocument_table:
  "distinct (map entry_term (buildDocument toks)) \<and>
   set (map entry_term (buildDocument toks)) = set toks \<and>
   (\<forall>e\<in>set (buildDocument toks). weight e = count_list toks (entry_term e)) \<and>
   sorted_wrt (\<lambda>a b. first_index toks a < first_index toks b)
     (map entry_term (buildDocument toks))"
proof (induction toks rule: rev_induct)
  case Nil
  show ?case by (simp add: buildDocument_def)
next
  case (snoc t toks)
  let ?doc = "buildDocument toks"
  let ?ks = "map entry_term ?doc"
  have d: "distinct ?ks" and s: "set ?ks = set toks"
    and w: "\<forall>e\<in>set ?doc. weight e = count_list toks (entry_term e)"
    and o: "sorted_wrt (\<lambda>a b. first_index toks a < first_index toks b) ?ks"
    using snoc.IH by blast+
  have ks: "map entry_term (addTerm t ?doc) = (if t \<in> set toks then ?ks else ?ks @ [t])"
    using addTerm_terms [of t ?doc] s by simp
  have 1: "distinct (map entry_term (addTerm t ?doc))"
    using ks d s by auto
  have 2: "set (map entry_term (addTerm t ?doc)) = set (toks @ [t])"
    using ks s by auto
  have "t \<notin> set ?ks \<longrightarrow> count_list toks t = 0"
    using s by (simp add: count_list_0_iff)
  from addTerm_weights [OF d w this]
  have 3: "\<forall>e\<in>set (addTerm t ?doc). weight e = count_list (toks @ [t]) (entry_term e)"
    by auto
  have o': "sorted_wrt (\<lambda>a b. first_index (toks @ [t]) a < first_index (toks @ [t]) b) ?ks"
  proof (rule sorted_wrt_mono_rel [OF _ o])
    fix a b assume "a \<in> set ?ks" "b \<in> set ?ks" "first_index toks a < first_index toks b"
    then show "first_index (toks @ [t]) a < first_index (toks @ [t]) b"
      using s by (simp add: first_index_snoc_old)
  qed
  have 4: "sorted_wrt (\<lambda>a b. first_index (toks @ [t]) a < first_index (toks @ [t]) b)
             (map entry_term (addTerm t ?doc))"
  proof (cases "t \<in> set toks")
    case True
    then show ?thesis using ks o' by simp
  next
    case False
    have "\<forall>a\<in>set ?ks. first_index (toks @ [t]) a < first_index (toks @ [t]) t"
      using s False by (simp add: first_index_snoc_old first_index_snoc_new first_index_less)
    then show ?thesis using ks o' False by (simp add: sorted_wrt_append)
  qed
  from 1 2 3 4 show ?case unfolding buildDocument_snoc by blast
qed

subsection \<open>The stable sort\<close>

lemma set_insertRanked: "set (insertRanked e xs) = insert e (set xs)"
  by (induction xs) auto

lemma set_rankEntries: "set (rankEntries xs) = set xs"
  by (induction xs) (simp_all add: set_insertRanked)

lemma length_insertRanked: "length (insertRanked e xs) = Suc (length xs)"
  by (induction xs) auto

lemma length_rankEntries: "length (rankEntries xs) = length xs"
  by (induction xs) (simp_all add: length_insertRanked)

lemma insertRanked_sorted:
  assumes "sorted_wrt (\<lambda>a b. weight b < weight a \<or> (weight a = weight b \<and> R a b)) xs"
      and "\<forall>y\<in>set xs. R e y"
  shows "sorted_wrt (\<lambda>a b. weight b < weight a \<or> (weight a = weight b \<and> R a b))
           (insertRanked e xs)"
  using assms
proof (induction xs)
  case Nil
  then show ?case by simp
next
  case (Cons x xs)
  show ?case
  proof (cases "weight x \<le> weight e")
    case True
    have "\<forall>z\<in>set xs. weight z \<le> weight x" using Cons.prems(1) by auto
    then have le: "\<forall>z\<in>set (x # xs). weight z \<le> weight e" using True by auto
    have "\<forall>z\<in>set (x # xs). weight z < weight e \<or> (weight e = weight z \<and> R e z)"
    proof
      fix z assume z: "z \<in> set (x # xs)"
      then have "weight z \<le> weight e" "R e z" using le Cons.prems(2) by blast+
      then show "weight z < weight e \<or> (weight e = weight z \<and> R e z)"
        by (cases "weight z = weight e") simp_all
    qed
    then show ?thesis using True Cons.prems(1) by simp
  next
    case False
    have "sorted_wrt (\<lambda>a b. weight b < weight a \<or> (weight a = weight b \<and> R a b))
            (insertRanked e xs)"
      using Cons by simp
    moreover have "\<forall>z\<in>set (insertRanked e xs).
                     weight z < weight x \<or> (weight x = weight z \<and> R x z)"
      using False Cons.prems(1) by (auto simp: set_insertRanked)
    ultimately show ?thesis using False by simp
  qed
qed

lemma rankEntries_sorted:
  assumes "sorted_wrt R xs"
  shows "sorted_wrt (\<lambda>a b. weight b < weight a \<or> (weight a = weight b \<and> R a b))
           (rankEntries xs)"
  using assms
proof (induction xs)
  case Nil
  then show ?case by simp
next
  case (Cons x xs)
  then have "\<forall>y\<in>set (rankEntries xs). R x y" by (simp add: set_rankEntries)
  moreover have "sorted_wrt (\<lambda>a b. weight b < weight a \<or> (weight a = weight b \<and> R a b))
           (rankEntries xs)" using Cons by simp
  ultimately show ?case by (simp add: insertRanked_sorted)
qed

subsection \<open>The ranking of the terms of a token sequence\<close>

lemma ranked_terms:
  "sorted_wrt (ranked_before toks) (map entry_term (rankEntries (buildDocument toks))) \<and>
   set (map entry_term (rankEntries (buildDocument toks))) = set toks \<and>
   length (map entry_term (rankEntries (buildDocument toks))) = card (set toks)"
proof -
  let ?doc = "buildDocument toks"
  note t = buildDocument_table [of toks]
  have "sorted_wrt (\<lambda>a b. first_index toks (entry_term a) < first_index toks (entry_term b)) ?doc"
    using t by (simp add: sorted_wrt_map)
  then have "sorted_wrt (\<lambda>a b. weight b < weight a \<or> (weight a = weight b \<and>
               first_index toks (entry_term a) < first_index toks (entry_term b)))
             (rankEntries ?doc)"
    by (rule rankEntries_sorted)
  then have "sorted_wrt (\<lambda>a b. ranked_before toks (entry_term a) (entry_term b)) (rankEntries ?doc)"
  proof (rule sorted_wrt_mono_rel [rotated])
    fix a b assume "a \<in> set (rankEntries ?doc)" "b \<in> set (rankEntries ?doc)"
      and q: "weight b < weight a \<or> (weight a = weight b \<and>
               first_index toks (entry_term a) < first_index toks (entry_term b))"
    then have "weight a = count_list toks (entry_term a)" "weight b = count_list toks (entry_term b)"
      using t by (simp_all add: set_rankEntries)
    with q show "ranked_before toks (entry_term a) (entry_term b)"
      by (simp add: ranked_before_def)
  qed
  then have 1: "sorted_wrt (ranked_before toks) (map entry_term (rankEntries ?doc))"
    by (simp add: sorted_wrt_map)
  have 2: "set (map entry_term (rankEntries ?doc)) = set toks"
    using t by (simp add: set_rankEntries)
  have "length ?doc = card (set toks)"
    using t distinct_card [of "map entry_term ?doc"] by simp
  then have 3: "length (map entry_term (rankEntries ?doc)) = card (set toks)"
    by (simp add: length_rankEntries)
  from 1 2 3 show ?thesis by blast
qed

lemma ranked_before_irrefl: "\<not> ranked_before toks a a"
  by (simp add: ranked_before_def)

lemma sorted_wrt_irrefl_distinct_list:
  assumes "sorted_wrt P xs" and "\<And>x. \<not> P x x"
  shows "distinct xs"
  using assms by (induction xs) auto

text \<open>
  C2. For every text, with the tokens of the extracted text: there are at most 5 tags,
  as many as there are distinct terms when these are fewer than 5, and none for no
  tokens (so none for the empty text, when the tokenizer gives no token for it); no tag
  occurs twice; every tag is a term of the text; the tags are in ranking order, more
  frequent first and, at equal frequency, first seen earlier first; every term left out
  ranks after every tag; and a term more frequent than every other term is the first
  tag, as \<open>apple\<close> is when it occurs 10 times among 50 tokens and every other word once.
  The ranking is that of the index modelled from the specification.
\<close>

theorem autoTags_ranking:
  assumes r: "fst (performContentAnalysis env textBody w) = Inr r"
      and parse: "readability_parse env (''<body>'' @ textBody @ ''</body>'') = Inr article"
      and toks: "toks = tokenize env (extracted_text article)"
  shows "length (autoTags r) \<le> 5 \<and>
         length (autoTags r) = min 5 (card (set toks)) \<and>
         distinct (autoTags r) \<and>
         set (autoTags r) \<subseteq> set toks \<and>
         sorted_wrt (ranked_before toks) (autoTags r) \<and>
         (\<forall>t\<in>set (autoTags r). \<forall>u\<in>set toks - set (autoTags r). ranked_before toks t u) \<and>
         (toks = [] \<longrightarrow> autoTags r = []) \<and>
         (extracted_text article = [] \<and> tokenize env [] = [] \<longrightarrow> autoTags r = []) \<and>
         (\<forall>t\<in>set toks. (\<forall>u\<in>set toks. u \<noteq> t \<longrightarrow> count_list toks u < count_list toks t)
             \<longrightarrow> autoTags r \<noteq> [] \<and> hd (autoTags r) = t)"
proof -
  let ?ks = "map entry_term (rankEntries (buildDocument toks))"
  from performContentAnalysis_Inr [OF r] parse toks
  have tags: "autoTags r = take 5 ?ks" by (auto simp: take_map)
  note k = ranked_terms [of toks]
  have s: "sorted_wrt (ranked_before toks) ?ks" and st: "set ?ks = set toks"
    and len: "length ?ks = card (set toks)"
    using k by blast+
  have 1: "length (autoTags r) \<le> 5" using tags by simp
  have 2: "length (autoTags r) = min 5 (card (set toks))" using tags len by simp
  have 4: "set (autoTags r) \<subseteq> set toks" using tags st set_take_subset [of 5 ?ks] by simp
  have 5: "sorted_wrt (ranked_before toks) (autoTags r)" unfolding tags using s by simp
  have 3: "distinct (autoTags r)"
    using 5 ranked_before_irrefl by (rule sorted_wrt_irrefl_distinct_list)
  have ap: "sorted_wrt (ranked_before toks) (take 5 ?ks @ drop 5 ?ks)" using s by simp
  have 6: "\<forall>t\<in>set (autoTags r). \<forall>u\<in>set toks - set (autoTags r). ranked_before toks t u"
  proof (intro ballI)
    fix t u assume t: "t \<in> set (autoTags r)" and u: "u \<in> set toks - set (autoTags r)"
    have "set toks = set (take 5 ?ks) \<union> set (drop 5 ?ks)"
      using st set_append [of "take 5 ?ks" "drop 5 ?ks"] by simp
    then have "u \<in> set (drop 5 ?ks)" using u tags by auto
    moreover have "\<forall>x\<in>set (take 5 ?ks). \<forall>y\<in>set (drop 5 ?ks). ranked_before toks x y"
      using ap unfolding sorted_wrt_append by blast
    moreover have "t \<in> set (take 5 ?ks)" using t tags by simp
    ultimately show "ranked_before toks t u" by blast
  qed
  have 7: "toks = [] \<longrightarrow> autoTags r = []" using 2 by auto
  have 8: "extracted_text article = [] \<and> tokenize env [] = [] \<longrightarrow> autoTags r = []"
    using 7 toks by simp
  have 9: "\<forall>t\<in>set toks. (\<forall>u\<in>set toks. u \<noteq> t \<longrightarrow> count_list toks u < count_list toks t)
             \<longrightarrow> autoTags r \<noteq> [] \<and> hd (autoTags r) = t"
  proof (intro ballI impI)
    fix t assume t: "t \<in> set toks"
      and top: "\<forall>u\<in>set toks. u \<noteq> t \<longrightarrow> count_list toks u < count_list toks t"
    define ks where "ks = ?ks"
    have s': "sorted_wrt (ranked_before toks) ks" and st': "set ks = set toks"
      and tags': "autoTags r = take 5 ks"
      using s st tags by (simp_all only: ks_def)
    from t st' obtain h rest where hr: "ks = h # rest" by (cases ks) auto
    have "h = t"
    proof (rule ccontr)
      assume n: "h \<noteq> t"
      then have "t \<in> set rest" using t st' hr by auto
      then have "ranked_before toks h t" using s' hr by simp
      moreover have "h \<in> set toks" using st' hr by auto
      then have "count_list toks h < count_list toks t" using top n by blast
      ultimately show False by (simp add: ranked_before_def)
    qed
    then show "autoTags r \<noteq> [] \<and> hd (autoTags r) = t" using tags' hr by simp
  qed
  from 1 2 3 4 5 6 7 8 9 show ?thesis by blast
qed

theorem autoTags_ranking_witness:
  "\<exists>r. fst (performContentAnalysis (sample_env []) apple_text w0) = Inr r \<and>
        autoTags r = [''apple'', ''w1'', ''w2'', ''w3'', ''w4''] \<and>
        hd (autoTags r) = ''apple'' \<and> distinct (autoTags r) \<and>
        length (ws_tokens apple_text) = 50 \<and>
        count_list (ws_tokens apple_text) ''apple'' = 10"
proof -
  have p: "readability_parse (sample_env []) (''<body>'' @ apple_text @ ''</body>'') =
             Inr (Some apple_text)"
    by code_simp
  have f: "Category_find (sample_env []) = Inr []"
    by (simp add: sample_env_def)
  have k: "tokenize (sample_env []) (extracted_text (Some apple_text)) = ws_tokens apple_text"
    by (simp add: sample_env_def extracted_text_def)
  have l: "ws_tokens apple_text =
      [''w1'', ''w2'', ''w3'', ''w4'', ''apple'', ''w5'', ''w6'', ''w7'', ''w8'',
       ''apple'', ''w9'', ''w10'', ''w11'', ''w12'', ''apple'', ''w13'', ''w14'',
       ''w15'', ''w16'', ''apple'', ''w17'', ''w18'', ''w19'', ''w20'', ''apple'',
       ''w21'', ''w22'', ''w23'', ''w24'', ''apple'', ''w25'', ''w26'', ''w27'',
       ''w28'', ''apple'', ''w29'', ''w30'', ''w31'', ''w32'', ''apple'', ''w33'',
       ''w34'', ''w35'', ''w36'', ''apple'', ''w37'', ''w38'', ''w39'', ''w40'',
       ''apple'']"
    by code_simp
  have c: "length (ws_tokens apple_text) = 50 \<and>
           count_list (ws_tokens apple_text) ''apple'' = 10"
    unfolding l by code_simp
  have a: "''apple'' \<in> set (ws_tokens apple_text)"
    unfolding l by code_simp
  have m: "\<forall>u\<in>set (ws_tokens apple_text). u \<noteq> ''apple'' \<longrightarrow>
             count_list (ws_tokens apple_text) u < count_list (ws_tokens apple_text) ''apple''"
    unfolding l by code_simp
  have v: "map entry_term (take 5 (rankEntries (buildDocument (ws_tokens apple_text)))) =
             [''apple'', ''w1'', ''w2'', ''w3'', ''w4'']"
    unfolding l by code_simp
  obtain r where h: "fst (performContentAnalysis (sample_env []) apple_text w0) = Inr r"
    using performContentAnalysis_ok [OF p f] by blast
  from performContentAnalysis_Inr [OF h] p k v
  have t: "autoTags r = [''apple'', ''w1'', ''w2'', ''w3'', ''w4'']" by auto
  from autoTags_ranking [OF h p k [symmetric]] a m
  have "hd (autoTags r) = ''apple'' \<and> distinct (autoTags r)" by blast
  with h t c show ?thesis by blast
qed

section \<open>Independence of the calls\<close>

lemma analyze_result_any_world:
  "fst (analyzeContentService env m w) = fst (analyzeContentService env m w')"
  by (simp add: analyzeContentService_def performContentAnalysis_def Let_def
           split: sum.splits)

lemma performContentAnalysis_TfIdf: "TfIdf (snd (performContentAnalysis env m w)) = TfIdf w"
  by (simp add: performContentAnalysis_def Let_def record_call_def split: sum.splits)

lemma analyze_TfIdf: "TfIdf (snd (analyzeContentService env m w)) = TfIdf w"
  by (simp add: analyzeContentService_def performContentAnalysis_TfIdf)

lemma analyzeAll_TfIdf: "TfIdf (snd (analyzeAll env ms w)) = TfIdf w"
proof (induction ms arbitrary: w)
  case Nil
  show ?case by simp
next
  case (Cons m ms)
  obtain r w' where a: "analyzeContentService env m w = (r, w')"
    by (cases "analyzeContentService env m w")
  then have "TfIdf w' = TfIdf w" using analyze_TfIdf [of env m w] by simp
  moreover obtain rs w'' where b: "analyzeAll env ms w' = (rs, w'')"
    by (cases "analyzeAll env ms w'")
  moreover have "TfIdf (snd (analyzeAll env ms w')) = TfIdf w'" by (rule Cons.IH)
  ultimately show ?case using a by simp
qed

text \<open>
  C8. The result of analysing a markup is the same after any two runs of earlier
  requests from any two worlds; neither a run nor a call changes the module-level
  instance; and the tags of a call are ranked in an instance created for that call,
  which holds the one document of that call, so every tag is a token of the text of
  that call.
\<close>

theorem analysis_is_stateless:
  "fst (analyzeContentService env markup (snd (analyzeAll env earlier w))) =
     fst (analyzeContentService env markup (snd (analyzeAll env earlier' w'))) \<and>
   TfIdf (snd (analyzeAll env earlier w)) = TfIdf w \<and>
   TfIdf (snd (analyzeContentService env markup w)) = TfIdf w \<and>
   (\<forall>r article.
      fst (analyzeContentService env markup w) = Inr r \<and> \<not> list_all is_space markup \<and>
      readability_parse env (''<body>'' @ markup @ ''</body>'') = Inr article \<longrightarrow>
      autoTags r = map entry_term (take 5 (listTerms
                     (addDocument (tokenize env (extracted_text article)) new_TfIdf) 0)) \<and>
      set (autoTags r) \<subseteq> set (tokenize env (extracted_text article)))"
proof -
  have 1: "fst (analyzeContentService env markup (snd (analyzeAll env earlier w))) =
     fst (analyzeContentService env markup (snd (analyzeAll env earlier' w')))"
    by (rule analyze_result_any_world)
  have 2: "TfIdf (snd (analyzeAll env earlier w)) = TfIdf w" by (rule analyzeAll_TfIdf)
  have 3: "TfIdf (snd (analyzeContentService env markup w)) = TfIdf w" by (rule analyze_TfIdf)
  have 4: "\<forall>r article.
      fst (analyzeContentService env markup w) = Inr r \<and> \<not> list_all is_space markup \<and>
      readability_parse env (''<body>'' @ markup @ ''</body>'') = Inr article \<longrightarrow>
      autoTags r = map entry_term (take 5 (listTerms
                     (addDocument (tokenize env (extracted_text article)) new_TfIdf) 0)) \<and>
      set (autoTags r) \<subseteq> set (tokenize env (extracted_text article))"
  proof (intro allI impI)
    fix r article
    assume h: "fst (analyzeContentService env markup w) = Inr r \<and> \<not> list_all is_space markup \<and>
      readability_parse env (''<body>'' @ markup @ ''</body>'') = Inr article"
    then have "analyzeContentService env markup w = performContentAnalysis env markup w"
      using trim_Nil_iff [of markup] by (auto simp: analyzeContentService_def list_all_iff)
    with h have p: "fst (performContentAnalysis env markup w) = Inr r" by simp
    from performContentAnalysis_Inr [OF p] h
    have t: "autoTags r = map entry_term (take 5 (rankEntries
               (buildDocument (tokenize env (extracted_text article)))))" by auto
    then have a: "autoTags r = map entry_term (take 5 (listTerms
                     (addDocument (tokenize env (extracted_text article)) new_TfIdf) 0))"
      by (simp add: listTerms_def addDocument_def new_TfIdf_def)
    have "set (autoTags r) \<subseteq> set (map entry_term (rankEntries
               (buildDocument (tokenize env (extracted_text article)))))"
      unfolding t take_map [symmetric] by (rule set_take_subset)
    then have "set (autoTags r) \<subseteq> set (tokenize env (extracted_text article))"
      using ranked_terms [of "tokenize env (extracted_text article)"] by simp
    with a show "autoTags r = map entry_term (take 5 (listTerms
                     (addDocument (tokenize env (extracted_text article)) new_TfIdf) 0)) \<and>
      set (autoTags r) \<subseteq> set (tokenize env (extracted_text article))" by blast
  qed
  from 1 2 3 4 show ?thesis by blast
qed

theorem analysis_is_stateless_witness:
  "fst (analyzeContentService (sample_env []) ''b a b''
          (snd (analyzeAll (sample_env []) [''x x x y'', ''z z''] used_world))) =
     Inr \<lparr>wordCount = 3, readingTime = 1, autoTags = [''b'', ''a''],
           suggestedCategory = ''Uncategorized''\<rparr>"
proof -
  have e: "fst (analyzeContentService (sample_env []) ''b a b'' (snd (analyzeAll (sample_env []) [] w0))) =
     Inr \<lparr>wordCount = 3, readingTime = 1, autoTags = [''b'', ''a''],
           suggestedCategory = ''Uncategorized''\<rparr>"
    by code_simp
  from analysis_is_stateless [of "sample_env []" "''b a b''" "[''x x x y'', ''z z'']" used_world
         "[]" w0] e
  show ?thesis by simp
qed

end
